theory Spec2Isabelle
  imports Complex_Main "HOL-Library.Char_ord" "HOL-Library.List_Lexorder" "HOL-Library.Multiset"
begin

section \<open>Python values used by the program\<close>

text \<open>
  A Python \<open>str\<close> is modelled as a \<open>string\<close>: a \<open>char\<close> stands for the code point
  of the same number, so the model covers the texts and file names over U+0000..U+00FF.
  The exceptions the modelled functions can raise are values of \<open>py_error\<close>, and a
  function that can raise returns \<open>py_error + 'a\<close>.
\<close>

datatype py_error = ValueError | FileNotFoundError | KeyError | WriteError

subsection \<open>Whitespace, \<open>str.strip\<close>, \<open>str.split\<close>, \<open>str.join\<close>\<close>

text \<open>
  \<open>str.isspace\<close>, \<open>str.strip()\<close>, \<open>str.split()\<close> and the regular expression class
  \<open>\s\<close> of a \<open>str\<close> pattern use one whitespace table; below U+0100 it holds
  U+0009..U+000D, U+001C..U+0020, U+0085 and U+00A0.
\<close>

definition isspace :: "char \<Rightarrow> bool" where
  "isspace c \<longleftrightarrow> c \<in> {CHR 0x09, CHR 0x0A, CHR 0x0B, CHR 0x0C, CHR 0x0D,
     CHR 0x1C, CHR 0x1D, CHR 0x1E, CHR 0x1F, CHR 0x20, CHR 0x85, CHR 0xA0}"

definition str_strip :: "string \<Rightarrow> string" where
  "str_strip s = rev (dropWhile isspace (rev (dropWhile isspace s)))"

text \<open>\<open>s.split()\<close>: the maximal runs of non-whitespace characters, in order.\<close>

fun split_acc :: "string \<Rightarrow> string \<Rightarrow> string list" where
  "split_acc cur [] = (if cur = [] then [] else [cur])"
| "split_acc cur (c # cs) =
     (if isspace c then (if cur = [] then split_acc [] cs else cur # split_acc [] cs)
      else split_acc (cur @ [c]) cs)"

definition str_split :: "string \<Rightarrow> string list" where
  "str_split s = split_acc [] s"

fun str_join :: "string \<Rightarrow> string list \<Rightarrow> string" where
  "str_join sep [] = []"
| "str_join sep [x] = x"
| "str_join sep (x # y # ys) = x @ sep @ str_join sep (y # ys)"

subsection \<open>\<open>str.replace\<close> and \<open>str.split(sep)\<close>\<close>

text \<open>
  Both scan from the left and take non-overlapping occurrences. The source passes only
  non-empty patterns (\<open>"\r\n"\<close>, \<open>"\r"\<close>, \<open>"\n\n"\<close>); an empty pattern never matches here.
\<close>

fun str_replace :: "string \<Rightarrow> string \<Rightarrow> string \<Rightarrow> string" where
  "str_replace old new [] = []"
| "str_replace old new (c # cs) =
     (if old \<noteq> [] \<and> take (length old) (c # cs) = old
      then new @ str_replace old new (drop (length old - 1) cs)
      else c # str_replace old new cs)"

fun split_sep_acc :: "string \<Rightarrow> string \<Rightarrow> string \<Rightarrow> string list" where
  "split_sep_acc sep cur [] = [cur]"
| "split_sep_acc sep cur (c # cs) =
     (if sep \<noteq> [] \<and> take (length sep) (c # cs) = sep
      then cur # split_sep_acc sep [] (drop (length sep - 1) cs)
      else split_sep_acc sep (cur @ [c]) cs)"

definition str_split_sep :: "string \<Rightarrow> string \<Rightarrow> string list" where
  "str_split_sep s sep = split_sep_acc sep [] s"

subsection \<open>\<open>re.split(r"(?<=[.!?])\s+", paragraph)\<close>\<close>

text \<open>
  The pattern matches a maximal run of whitespace whose first character directly follows
  one of \<open>.\<close>, \<open>!\<close>, \<open>?\<close>. The flag says whether the character just read is such a
  terminator; the pieces between the matches are returned, the last one included.
\<close>

definition is_terminator :: "char \<Rightarrow> bool" where
  "is_terminator c \<longleftrightarrow> c \<in> {CHR ''.'', CHR ''!'', CHR ''?''}"

function re_split_acc :: "bool \<Rightarrow> string \<Rightarrow> string \<Rightarrow> string list" where
  "re_split_acc after cur [] = [cur]"
| "re_split_acc after cur (c # cs) =
     (if after \<and> isspace c then cur # re_split_acc False [] (dropWhile isspace cs)
      else re_split_acc (is_terminator c) (cur @ [c]) cs)"
  by pat_completeness auto
termination
  by (relation "measure (\<lambda>(after, cur, s). length s)")
     (auto simp: le_imp_less_Suc length_dropWhile_le)

definition re_split_sentences :: "string \<Rightarrow> string list" where
  "re_split_sentences paragraph = re_split_acc False [] paragraph"

subsection \<open>\<open>range(0, n, step)\<close>\<close>

function range_from :: "nat \<Rightarrow> nat \<Rightarrow> nat \<Rightarrow> nat list" where
  "range_from i n step = (if step = 0 \<or> n \<le> i then [] else i # range_from (i + step) n step)"
  by pat_completeness auto
termination
  by (relation "measure (\<lambda>(i, n, step). n - i)") auto

definition py_range0 :: "nat \<Rightarrow> int \<Rightarrow> py_error + nat list" where
  "py_range0 n step =
     (if step = 0 then Inl ValueError
      else if step < 0 then Inr []
      else Inr (range_from 0 n (nat step)))"

section \<open>tts_synthesizer.py: \<open>SpeechSynthesizer._split_text\<close>\<close>

record split_state =
  chunks :: "string list"
  current_sentences :: "string list"
  word_count :: int

definition flush_current :: "split_state \<Rightarrow> split_state" where
  "flush_current st =
     (if current_sentences st \<noteq> []
      then st\<lparr>chunks := chunks st @ [str_join '' '' (current_sentences st)],
              current_sentences := [], word_count := 0\<rparr>
      else st)"

text \<open>
  The sub-chunks of an oversized sentence: \<open>words[i : i + max_words]\<close> joined by a
  space, for \<open>i\<close> in \<open>range(0, n, max_words)\<close>.
\<close>

definition sub_chunks :: "string list \<Rightarrow> int \<Rightarrow> py_error + string list" where
  "sub_chunks words max_words =
     (case py_range0 (length words) max_words of
        Inl e \<Rightarrow> Inl e
      | Inr is \<Rightarrow> Inr (map (\<lambda>i. str_join '' '' (take (nat max_words) (drop i words))) is))"

text \<open>The body of \<open>for sentence in sentences\<close>.\<close>

definition process_sentence :: "int \<Rightarrow> split_state \<Rightarrow> string \<Rightarrow> py_error + split_state" where
  "process_sentence max_words st sentence =
     (let words = str_split sentence; n = int (length words) in
      if n = 0 then Inr st
      else if n > max_words then
        (let st1 = flush_current st in
         case sub_chunks words max_words of
           Inl e \<Rightarrow> Inl e
         | Inr subs \<Rightarrow> Inr (st1\<lparr>chunks := chunks st1 @ subs\<rparr>))
      else if word_count st + n > max_words \<and> current_sentences st \<noteq> [] then
        Inr (st\<lparr>chunks := chunks st @ [str_join '' '' (current_sentences st)],
                current_sentences := [sentence], word_count := n\<rparr>)
      else
        Inr (st\<lparr>current_sentences := current_sentences st @ [sentence],
                word_count := word_count st + n\<rparr>))"

fun process_sentences :: "int \<Rightarrow> split_state \<Rightarrow> string list \<Rightarrow> py_error + split_state" where
  "process_sentences max_words st [] = Inr st"
| "process_sentences max_words st (s # ss) =
     (case process_sentence max_words st s of
        Inl e \<Rightarrow> Inl e
      | Inr st' \<Rightarrow> process_sentences max_words st' ss)"

definition sentences_of :: "string \<Rightarrow> string list" where
  "sentences_of paragraph =
     filter (\<lambda>s. s \<noteq> []) (map str_strip (re_split_sentences paragraph))"

fun process_paragraphs :: "int \<Rightarrow> split_state \<Rightarrow> string list \<Rightarrow> py_error + split_state" where
  "process_paragraphs max_words st [] = Inr st"
| "process_paragraphs max_words st (p # ps) =
     (case process_sentences max_words st (sentences_of p) of
        Inl e \<Rightarrow> Inl e
      | Inr st' \<Rightarrow> process_paragraphs max_words st' ps)"

definition normalize_newlines :: "string \<Rightarrow> string" where
  "normalize_newlines text =
     str_replace [CHR 0x0D] [CHR 0x0A] (str_replace [CHR 0x0D, CHR 0x0A] [CHR 0x0A] text)"

definition paragraphs_of :: "string \<Rightarrow> string list" where
  "paragraphs_of text =
     filter (\<lambda>p. p \<noteq> [])
       (map str_strip (str_split_sep (normalize_newlines text) [CHR 0x0A, CHR 0x0A]))"

definition initial_state :: split_state where
  "initial_state = \<lparr>chunks = [], current_sentences = [], word_count = 0\<rparr>"

definition split_text :: "string \<Rightarrow> int \<Rightarrow> py_error + string list" where
  "split_text text max_words =
     (case process_paragraphs max_words initial_state (paragraphs_of text) of
        Inl e \<Rightarrow> Inl e
      | Inr st \<Rightarrow>
          Inr (if current_sentences st \<noteq> []
               then chunks st @ [str_join '' '' (current_sentences st)]
               else chunks st))"

subsection \<open>Notions used to state the properties of \<open>_split_text\<close>\<close>

text \<open>The word sequence of a list of strings: the words of each, in order.\<close>

definition words_of :: "string list \<Rightarrow> string list" where
  "words_of xs = concat (map str_split xs)"

text \<open>The words the loop has placed so far: those of the closed chunks, then those of the
  sentences still accumulating.\<close>

definition emitted :: "split_state \<Rightarrow> string list" where
  "emitted st = words_of (chunks st) @ words_of (current_sentences st)"

text \<open>The loop invariant behind the size bound.\<close>

definition bounded :: "int \<Rightarrow> split_state \<Rightarrow> bool" where
  "bounded max_words st \<longleftrightarrow>
     list_all (\<lambda>c. int (length (str_split c)) \<le> max_words) (chunks st) \<and>
     word_count st = int (length (words_of (current_sentences st))) \<and>
     word_count st \<le> max_words"

section \<open>Paths and numbers in file names\<close>

text \<open>
  \<open>str.rfind(c)\<close> for a single character: the index of its last occurrence, if any.
\<close>

fun rfind_acc :: "char \<Rightarrow> string \<Rightarrow> nat \<Rightarrow> nat option \<Rightarrow> nat option" where
  "rfind_acc c [] i found = found"
| "rfind_acc c (x # xs) i found = rfind_acc c xs (Suc i) (if x = c then Some i else found)"

definition str_rfind :: "string \<Rightarrow> char \<Rightarrow> nat option" where
  "str_rfind s c = rfind_acc c s 0 None"

text \<open>
  \<open>PurePath.stem\<close> of a file name (Python 3.11 and 3.12): the name up to its last dot,
  unless that dot is the first or the last character, or there is none.
\<close>

definition path_stem :: "string \<Rightarrow> string" where
  "path_stem name =
     (case str_rfind name CHR ''.'' of
        None \<Rightarrow> name
      | Some i \<Rightarrow> if 0 < i \<and> i + 1 < length name then take i name else name)"

text \<open>\<open>str(n)\<close> for \<open>n \<ge> 0\<close> and the format \<open>f"{idx:02d}"\<close>: decimal digits, padded on
  the left with zeros to a width of at least two.\<close>

definition digit_char :: "nat \<Rightarrow> char" where
  "digit_char d = char_of (48 + d)"

function str_nat :: "nat \<Rightarrow> string" where
  "str_nat n = (if n < 10 then [digit_char n] else str_nat (n div 10) @ [digit_char (n mod 10)])"
  by pat_completeness auto
termination
  by (relation "measure id") auto

definition fmt_02d :: "nat \<Rightarrow> string" where
  "fmt_02d idx = (let s = str_nat idx in replicate (2 - length s) CHR ''0'' @ s)"

section \<open>tts_synthesizer.py: \<open>SpeechSynthesizer.synthesize_directory\<close>\<close>

text \<open>
  A text file found by \<open>text_dir.glob("*.txt")\<close>: its name, what \<open>f.read()\<close> returns and
  its \<open>st_mtime\<close>. Time stamps are only compared, so they are taken from \<open>int\<close>.
  Output paths are file names inside \<open>output_dir\<close>.
\<close>

record text_file =
  tf_name :: string
  tf_content :: string
  tf_mtime :: int

text \<open>The three \<open>logging.info\<close> messages of the loop, each with the output path it names.\<close>

datatype log_entry = Skipping string | Regenerating string | Generated string

text \<open>
  The state the loop works on: the files of \<open>output_dir\<close> with their \<open>st_mtime\<close>, the time
  stamp a file written now receives, the calls of the synthesis model made so far (text and
  output path), the list \<open>generated\<close>, and the log.
\<close>

record synth_state =
  files :: "string \<rightharpoonup> int"
  clock :: int
  synth_calls :: "(string \<times> string) list"
  generated :: "string list"
  log :: "log_entry list"

definition path_exists :: "synth_state \<Rightarrow> string \<Rightarrow> bool" where
  "path_exists st p \<longleftrightarrow> files st p \<noteq> None"

text \<open>\<open>out_path.stat().st_mtime\<close> raises \<open>FileNotFoundError\<close> when the file is missing.\<close>

definition stat_mtime :: "synth_state \<Rightarrow> string \<Rightarrow> py_error + int" where
  "stat_mtime st p = (case files st p of None \<Rightarrow> Inl FileNotFoundError | Some t \<Rightarrow> Inr t)"

text \<open>\<open>synthesize_to_file\<close>: the model generates the audio and the file is written. A failure
  of the external model is not modelled.\<close>

definition synthesize_to_file :: "string \<Rightarrow> string \<Rightarrow> synth_state \<Rightarrow> synth_state" where
  "synthesize_to_file text_in output_path st =
     st\<lparr>files := (files st)(output_path \<mapsto> clock st),
        synth_calls := synth_calls st @ [(text_in, output_path)]\<rparr>"

text \<open>
  The block both branches of the loop run for one output file (lines 193-210 and 214-236 of
  the source, which differ in the wording of their log messages only): the up-to-date
  check, then the synthesis.
\<close>

definition write_output ::
  "int \<Rightarrow> string \<Rightarrow> string \<Rightarrow> synth_state \<Rightarrow> py_error + synth_state" where
  "write_output txt_mtime chunk_text out_path st =
     (let regenerate = (\<lambda>s.
            let s1 = synthesize_to_file chunk_text out_path s in
            Inr (s1\<lparr>generated := generated s1 @ [out_path],
                    log := log s1 @ [Generated out_path]\<rparr>))
      in
      if path_exists st out_path then
        (case stat_mtime st out_path of
           Inl e \<Rightarrow> Inl e
         | Inr audio_mtime \<Rightarrow>
             if txt_mtime \<le> audio_mtime
             then Inr (st\<lparr>log := log st @ [Skipping out_path]\<rparr>)
             else regenerate (st\<lparr>log := log st @ [Regenerating out_path]\<rparr>))
      else regenerate st)"

text \<open>\<open>for idx, chunk_text in enumerate(chunks, start=1)\<close>, from index \<open>idx\<close> on.\<close>

fun write_chunks ::
  "int \<Rightarrow> string \<Rightarrow> string \<Rightarrow> nat \<Rightarrow> string list \<Rightarrow> synth_state \<Rightarrow> py_error + synth_state" where
  "write_chunks txt_mtime base_name suffix idx [] st = Inr st"
| "write_chunks txt_mtime base_name suffix idx (chunk_text # rest) st =
     (case write_output txt_mtime chunk_text (base_name @ ''-'' @ fmt_02d idx @ suffix) st of
        Inl e \<Rightarrow> Inl e
      | Inr st' \<Rightarrow> write_chunks txt_mtime base_name suffix (Suc idx) rest st')"

text \<open>The body of \<open>for txt_path in sorted(text_dir.glob("*.txt"))\<close>.\<close>

definition process_file :: "string \<Rightarrow> text_file \<Rightarrow> synth_state \<Rightarrow> py_error + synth_state" where
  "process_file suffix f st =
     (let text_in = str_strip (tf_content f) in
      if text_in = [] then Inr st
      else
        case split_text text_in 100 of
          Inl e \<Rightarrow> Inl e
        | Inr parts \<Rightarrow>
            let base_name = path_stem (tf_name f) in
            if length parts = 1
            then write_output (tf_mtime f) (hd parts) (base_name @ suffix) st
            else write_chunks (tf_mtime f) base_name suffix 1 parts st)"

fun process_files :: "string \<Rightarrow> text_file list \<Rightarrow> synth_state \<Rightarrow> py_error + synth_state" where
  "process_files suffix [] st = Inr st"
| "process_files suffix (f # fs) st =
     (case process_file suffix f st of
        Inl e \<Rightarrow> Inl e
      | Inr st' \<Rightarrow> process_files suffix fs st')"

text \<open>
  \<open>synthesize_directory\<close>: \<open>text_dir\<close> is \<open>None\<close> when the directory does not exist, else the
  files its \<open>glob\<close> yields, in the order the file system lists them; \<open>sorted\<close> orders the
  paths of one directory by name. The result is the list \<open>generated\<close> with the final state.
\<close>

definition synthesize_directory ::
  "text_file list option \<Rightarrow> string \<Rightarrow> synth_state \<Rightarrow> py_error + (string list \<times> synth_state)" where
  "synthesize_directory text_dir suffix st =
     (case text_dir of
        None \<Rightarrow> Inl FileNotFoundError
      | Some listing \<Rightarrow>
          (case process_files suffix (sort_key tf_name listing) (st\<lparr>generated := []\<rparr>) of
             Inl e \<Rightarrow> Inl e
           | Inr st' \<Rightarrow> Inr (generated st', st')))"

subsection \<open>Notions used to state the properties of \<open>synthesize_directory\<close>\<close>




text \<open>\<open>int(s)\<close> on a string of ASCII decimal digits, the inverse of \<open>str\<close>.\<close>

definition digit_value :: "char \<Rightarrow> nat" where
  "digit_value c = of_char c - 48"

definition digits_value :: "string \<Rightarrow> nat" where
  "digits_value s = foldl (\<lambda>acc c. 10 * acc + digit_value c) 0 s"

section \<open>video_producer.py: \<open>VideoProducer.create_video_from_directory\<close>\<close>

subsection \<open>\<open>str.lower\<close>, \<open>str.isdigit\<close>, \<open>int\<close>\<close>

text \<open>
  Below U+0100, \<open>str.lower\<close> moves \<open>A\<close>..\<open>Z\<close> and U+00C0..U+00DE except U+00D7 up by 32
  and leaves every other character alone.
\<close>

definition char_lower :: "char \<Rightarrow> char" where
  "char_lower c =
     (let n = (of_char c :: nat) in
      if (65 \<le> n \<and> n \<le> 90) \<or> (192 \<le> n \<and> n \<le> 222 \<and> n \<noteq> 215) then char_of (n + 32) else c)"

definition str_lower :: "string \<Rightarrow> string" where
  "str_lower s = map char_lower s"

text \<open>
  \<open>str.isdigit\<close> holds for a non-empty string of digit characters; below U+0100 these are
  \<open>0\<close>..\<open>9\<close> and the superscripts U+00B2, U+00B3, U+00B9. \<open>int\<close> reads decimal digits
  only: among the strings that pass \<open>isdigit\<close> (the only ones the source gives it) it
  returns the value of an ASCII digit string and raises \<open>ValueError\<close> on a superscript.
\<close>

definition is_ascii_digit :: "char \<Rightarrow> bool" where
  "is_ascii_digit c \<longleftrightarrow> CHR ''0'' \<le> c \<and> c \<le> CHR ''9''"

definition isdigit_char :: "char \<Rightarrow> bool" where
  "isdigit_char c \<longleftrightarrow> is_ascii_digit c \<or> c \<in> {CHR 0xB2, CHR 0xB3, CHR 0xB9}"

definition str_isdigit :: "string \<Rightarrow> bool" where
  "str_isdigit s \<longleftrightarrow> s \<noteq> [] \<and> list_all isdigit_char s"

definition py_int :: "string \<Rightarrow> py_error + nat" where
  "py_int s = (if s \<noteq> [] \<and> list_all is_ascii_digit s then Inr (digits_value s) else Inl ValueError)"

subsection \<open>Grouping the audio files\<close>

text \<open>
  Lines 99-106: base name and index of an audio file's stem. \<open>stem.rsplit("-", 1)\<close> cuts
  at the last \<open>-\<close>.
\<close>

definition parse_audio_stem :: "string \<Rightarrow> py_error + (string \<times> nat)" where
  "parse_audio_stem stem =
     (case str_rfind stem CHR ''-'' of
        None \<Rightarrow> Inr (stem, 0)
      | Some i \<Rightarrow>
          (let base_candidate = take i stem; suffix = drop (Suc i) stem in
           if str_isdigit suffix
           then (case py_int suffix of
                   Inl e \<Rightarrow> Inl e
                 | Inr idx \<Rightarrow> Inr (base_candidate, idx))
           else Inr (stem, 0)))"

text \<open>\<open>audio_groups.setdefault(base, []).append((idx, p))\<close> for each path of the sorted scan.\<close>

fun build_audio_groups ::
  "string list \<Rightarrow> (string \<rightharpoonup> (nat \<times> string) list) \<Rightarrow> py_error + (string \<rightharpoonup> (nat \<times> string) list)" where
  "build_audio_groups [] groups = Inr groups"
| "build_audio_groups (p # ps) groups =
     (case parse_audio_stem (path_stem p) of
        Inl e \<Rightarrow> Inl e
      | Inr (base, idx) \<Rightarrow>
          build_audio_groups ps
            (groups(base \<mapsto> (case groups base of None \<Rightarrow> [] | Some entries \<Rightarrow> entries) @ [(idx, p)])))"

text \<open>\<open>image_map = {p.stem: p for p in image_files}\<close>: a later file replaces an earlier one
  of the same stem.\<close>

fun build_image_map :: "string list \<Rightarrow> (string \<rightharpoonup> string) \<Rightarrow> (string \<rightharpoonup> string)" where
  "build_image_map [] image_map = image_map"
| "build_image_map (p # ps) image_map = build_image_map ps (image_map(path_stem p \<mapsto> p))"

text \<open>
  Lines 111-114. The intersection is a Python \<open>set\<close>, whose iteration order the language
  leaves open (it follows the string hashes, which change from run to run): \<open>set_order\<close>
  stands for it and rearranges a listing of the elements. \<open>sorted\<close> is stable, so elements
  with equal keys keep the order \<open>set_order\<close> gave them.
\<close>

definition common_stems ::
  "(string list \<Rightarrow> string list) \<Rightarrow> string list \<Rightarrow> (string \<rightharpoonup> (nat \<times> string) list) \<Rightarrow> string list" where
  "common_stems set_order image_files audio_groups =
     sort_key str_lower
       (set_order (filter (\<lambda>s. audio_groups s \<noteq> None) (remdups (map path_stem image_files))))"

subsection \<open>Building the clips\<close>

text \<open>
  A clip of the timeline: the image shown, the audio file played, how long the image is
  held and when the audio starts. Durations are in seconds; the unrounded sum stands for
  the floating-point addition of the source.
\<close>

record media_clip =
  clip_image :: string
  clip_audio :: string
  total_duration :: real
  audio_start :: real

definition lead_in :: real where
  "lead_in = 1"

text \<open>
  The moviepy objects the function constructs: for the chunk at position \<open>k\<close> of the
  timeline the \<open>AudioFileClip\<close> (line 133), the image clip that \<open>_letterbox_image_clip\<close>
  builds from an \<open>ImageClip\<close> (lines 27 and 140) and the clip appended to \<open>clips\<close> (lines
  149-151); and the concatenated final clip (line 154). What the function does with them
  is recorded as a trace of operations in program order, and the objects open at a point
  of the run are computed from the trace. The library is not part of the repository: an
  object counts as closed when the function calls \<open>close\<close> on it.
\<close>

datatype handle = AudioHandle nat | ImageHandle nat | ClipHandle nat | FinalHandle

datatype resource_op = Opened handle | Closed handle

fun open_after :: "handle list \<Rightarrow> resource_op list \<Rightarrow> handle list" where
  "open_after hs [] = hs"
| "open_after hs (Opened h # ops) = open_after (hs @ [h]) ops"
| "open_after hs (Closed h # ops) = open_after (removeAll h hs) ops"

text \<open>Lines 130-151, the loop over the chunks of one base name.\<close>

fun chunk_clips ::
  "(string \<Rightarrow> real) \<Rightarrow> string \<Rightarrow> (nat \<times> string) list \<Rightarrow>
     media_clip list \<times> resource_op list \<Rightarrow> media_clip list \<times> resource_op list" where
  "chunk_clips duration img_path [] built = built"
| "chunk_clips duration img_path ((idx, wav_path) # rest) (clips, ops) =
     chunk_clips duration img_path rest
       (clips @ [\<lparr>clip_image = img_path, clip_audio = wav_path,
                  total_duration = duration wav_path + lead_in, audio_start = lead_in\<rparr>],
        ops @ [Opened (AudioHandle (length clips)), Opened (ImageHandle (length clips)),
               Opened (ClipHandle (length clips))])"

text \<open>Lines 124-151, the loop over the matched base names.\<close>

fun stem_clips ::
  "(string \<Rightarrow> real) \<Rightarrow> (string \<rightharpoonup> string) \<Rightarrow> (string \<rightharpoonup> (nat \<times> string) list) \<Rightarrow>
     string list \<Rightarrow> media_clip list \<times> resource_op list \<Rightarrow>
     py_error + media_clip list \<times> resource_op list" where
  "stem_clips duration image_map audio_groups [] built = Inr built"
| "stem_clips duration image_map audio_groups (stem # rest) built =
     (case image_map stem of
        None \<Rightarrow> Inl KeyError
      | Some img_path \<Rightarrow>
          (case audio_groups stem of
             None \<Rightarrow> Inl KeyError
           | Some entries \<Rightarrow>
               stem_clips duration image_map audio_groups rest
                 (chunk_clips duration img_path (sort_key fst entries) built)))"

text \<open>Lines 175-177: \<open>for c in clips: c.close()\<close>, then \<open>final.close()\<close>.\<close>

definition clean_up :: "media_clip list \<Rightarrow> resource_op list" where
  "clean_up clips = map (\<lambda>k. Closed (ClipHandle k)) [0..<length clips] @ [Closed FinalHandle]"

subsection \<open>The whole function\<close>

text \<open>
  A run ends with the path returned or the exception raised, the timeline handed to the
  encoder, and the trace of the operations on clip objects.
\<close>

record video_run =
  outcome :: "py_error + string"
  timeline :: "media_clip list"
  resource_ops :: "resource_op list"

text \<open>
  Parameters that stand for the environment: \<open>set_order\<close> (see above), the duration the
  audio library reports for a file, and what \<open>final.write_videofile\<close> does (\<open>None\<close> when it
  returns, the exception when it raises). \<open>image_files\<close> and \<open>audio_files\<close> are the names
  the two \<open>glob\<close> calls yield, in the order of the file system. An exception raised by
  \<open>write_videofile\<close> (line 172) is caught nowhere in the function, so the run ends there.
\<close>

definition create_video_from_directory ::
  "(string list \<Rightarrow> string list) \<Rightarrow> (string \<Rightarrow> real) \<Rightarrow> py_error option \<Rightarrow>
     string list \<Rightarrow> string list \<Rightarrow> string \<Rightarrow> video_run" where
  "create_video_from_directory set_order duration write_error image_files audio_files output_path =
     (let image_map = build_image_map (sort_key str_lower image_files) Map.empty in
      case build_audio_groups (sort_key str_lower audio_files) Map.empty of
        Inl e \<Rightarrow> \<lparr>outcome = Inl e, timeline = [], resource_ops = []\<rparr>
      | Inr audio_groups \<Rightarrow>
          (let stems = common_stems set_order (sort_key str_lower image_files) audio_groups in
           if stems = []
           then \<lparr>outcome = Inl FileNotFoundError, timeline = [], resource_ops = []\<rparr>
           else
             case stem_clips duration image_map audio_groups stems ([], []) of
               Inl e \<Rightarrow> \<lparr>outcome = Inl e, timeline = [], resource_ops = []\<rparr>
             | Inr (clips, ops) \<Rightarrow>
                 (let ops_final = ops @ [Opened FinalHandle] in
                  case write_error of
                    Some e \<Rightarrow> \<lparr>outcome = Inl e, timeline = clips, resource_ops = ops_final\<rparr>
                  | None \<Rightarrow> \<lparr>outcome = Inr output_path, timeline = clips,
                              resource_ops = ops_final @ clean_up clips\<rparr>)))"

subsection \<open>Notions used to state the properties of \<open>create_video_from_directory\<close>\<close>

text \<open>The entries a list of audio files contributes to the group of one base name, in the
  order of the list.\<close>

definition group_entries :: "string \<Rightarrow> string list \<Rightarrow> (nat \<times> string) list" where
  "group_entries base ps =
     concat (map (\<lambda>p. case parse_audio_stem (path_stem p) of
                          Inl e \<Rightarrow> []
                        | Inr (b, idx) \<Rightarrow> if b = base then [(idx, p)] else []) ps)"

text \<open>The clip objects open when the function is left.\<close>

definition open_handles :: "video_run \<Rightarrow> handle list" where
  "open_handles run = open_after [] (resource_ops run)"

text \<open>The objects constructed for \<open>n\<close> consecutive chunks, from position \<open>k\<close> of the
  timeline on.\<close>

fun clip_handles :: "nat \<Rightarrow> nat \<Rightarrow> handle list" where
  "clip_handles k 0 = []"
| "clip_handles k (Suc n) = [AudioHandle k, ImageHandle k, ClipHandle k] @ clip_handles (Suc k) n"

section \<open>Words of a text\<close>

lemma split_acc_all_space_Nil: "list_all isspace s \<Longrightarrow> split_acc [] s = []"
  by (induction s) auto

lemma split_acc_all_space:
  "s \<noteq> [] \<Longrightarrow> list_all isspace s \<Longrightarrow> split_acc cur s = (if cur = [] then [] else [cur])"
  by (cases s) (auto simp: split_acc_all_space_Nil)

lemma split_acc_append_hd:
  "b = [] \<or> isspace (hd b) \<Longrightarrow> split_acc cur (a @ b) = split_acc cur a @ split_acc [] b"
proof (induction a arbitrary: cur)
  case Nil
  then show ?case by (cases b) auto
next
  case (Cons x a)
  then show ?case by simp
qed

lemma split_acc_append_last:
  "a \<noteq> [] \<Longrightarrow> isspace (last a) \<Longrightarrow> split_acc cur (a @ b) = split_acc cur a @ split_acc [] b"
proof (induction a arbitrary: cur)
  case Nil
  then show ?case by simp
next
  case (Cons x a)
  show ?case
  proof (cases "a = []")
    case True
    with Cons.prems show ?thesis by simp
  next
    case False
    with Cons show ?thesis by simp
  qed
qed

lemma str_split_append_space_left:
  "list_all isspace a \<Longrightarrow> str_split (a @ b) = str_split b"
proof (cases "a = []")
  case True
  then show ?thesis by simp
next
  case False
  assume sp: "list_all isspace a"
  with False have "isspace (last a)" by (simp add: list_all_iff)
  with False have "split_acc [] (a @ b) = split_acc [] a @ split_acc [] b"
    by (rule split_acc_append_last)
  with sp show ?thesis by (simp add: str_split_def split_acc_all_space_Nil)
qed

lemma str_split_append_space_right:
  "list_all isspace b \<Longrightarrow> str_split (a @ b) = str_split a"
proof -
  assume sp: "list_all isspace b"
  then have "b = [] \<or> isspace (hd b)" by (cases b) auto
  then have "split_acc [] (a @ b) = split_acc [] a @ split_acc [] b"
    by (rule split_acc_append_hd)
  with sp show ?thesis by (simp add: str_split_def split_acc_all_space_Nil)
qed

lemma str_split_dropWhile: "str_split (dropWhile isspace s) = str_split s"
proof -
  have "list_all isspace (takeWhile isspace s)"
    by (simp add: list_all_iff) (meson set_takeWhileD)
  then have "str_split (takeWhile isspace s @ dropWhile isspace s) = str_split (dropWhile isspace s)"
    by (rule str_split_append_space_left)
  then show ?thesis by simp
qed

lemma str_split_rstrip: "str_split (rev (dropWhile isspace (rev s))) = str_split s"
proof -
  have "list_all isspace (rev (takeWhile isspace (rev s)))"
    by (simp add: list_all_iff) (meson set_takeWhileD)
  then have "str_split (rev (dropWhile isspace (rev s)) @ rev (takeWhile isspace (rev s)))
     = str_split (rev (dropWhile isspace (rev s)))"
    by (rule str_split_append_space_right)
  moreover have "rev (dropWhile isspace (rev s)) @ rev (takeWhile isspace (rev s)) = s"
    by (metis rev_append rev_rev_ident takeWhile_dropWhile_id)
  ultimately show ?thesis by simp
qed

lemma str_split_strip: "str_split (str_strip s) = str_split s"
  by (simp add: str_strip_def str_split_rstrip str_split_dropWhile)

lemma str_split_Nil: "str_split [] = []"
  by (simp add: str_split_def)

lemma str_split_space_Cons: "str_split ('' '' @ s) = str_split s"
  by (simp add: str_split_def isspace_def)

lemma str_split_append_sep:
  "str_split (a @ '' '' @ b) = str_split a @ str_split b"
proof -
  have "split_acc [] (a @ ('' '' @ b)) = split_acc [] a @ split_acc [] ('' '' @ b)"
    by (rule split_acc_append_hd) (simp add: isspace_def)
  then show ?thesis using str_split_space_Cons[of b] by (simp add: str_split_def)
qed

lemma str_split_join: "str_split (str_join '' '' xs) = concat (map str_split xs)"
proof (induction "'' ''" xs rule: str_join.induct)
  case 1
  show ?case by (simp add: str_split_Nil)
next
  case (2 x)
  show ?case by simp
next
  case (3 x y ys)
  have "str_split (x @ '' '' @ str_join '' '' (y # ys))
      = str_split x @ str_split (str_join '' '' (y # ys))"
    by (rule str_split_append_sep)
  with 3 show ?case by simp
qed

lemma split_acc_no_space:
  "list_all (\<lambda>c. \<not> isspace c) s \<Longrightarrow> split_acc cur s = (if cur @ s = [] then [] else [cur @ s])"
  by (induction s arbitrary: cur) auto

lemma split_acc_words:
  "w \<in> set (split_acc cur s) \<Longrightarrow> list_all (\<lambda>c. \<not> isspace c) cur
     \<Longrightarrow> w \<noteq> [] \<and> list_all (\<lambda>c. \<not> isspace c) w"
proof (induction s arbitrary: cur)
  case Nil
  then show ?case by (auto split: if_splits)
next
  case (Cons c s)
  show ?case
  proof (cases "isspace c")
    case True
    with Cons.prems have "w = cur \<and> cur \<noteq> [] \<or> w \<in> set (split_acc [] s)"
      by (auto split: if_splits)
    then show ?thesis using Cons.IH[of "[]"] Cons.prems(2) by auto
  next
    case False
    with Cons.prems have "w \<in> set (split_acc (cur @ [c]) s)" by simp
    moreover from False Cons.prems(2) have "list_all (\<lambda>c. \<not> isspace c) (cur @ [c])" by simp
    ultimately show ?thesis by (rule Cons.IH)
  qed
qed

lemma str_split_word:
  "w \<in> set (str_split s) \<Longrightarrow> str_split w = [w]"
proof -
  assume "w \<in> set (str_split s)"
  then have "w \<noteq> [] \<and> list_all (\<lambda>c. \<not> isspace c) w"
    unfolding str_split_def by (rule split_acc_words) simp
  then show ?thesis by (simp add: str_split_def split_acc_no_space)
qed

lemma concat_str_split_words:
  "set ws \<subseteq> set (str_split s) \<Longrightarrow> concat (map str_split ws) = ws"
  by (induction ws) (auto simp: str_split_word)

lemma str_split_join_words:
  "set ws \<subseteq> set (str_split s) \<Longrightarrow> str_split (str_join '' '' ws) = ws"
  by (simp add: str_split_join concat_str_split_words)

lemma re_split_acc_words:
  "concat (map str_split (re_split_acc after cur s)) = str_split (cur @ s)"
proof (induction after cur s rule: re_split_acc.induct)
  case (1 after cur)
  show ?case by simp
next
  case (2 after cur c cs)
  show ?case
  proof (cases "after \<and> isspace c")
    case True
    then have "split_acc [] (cur @ (c # cs)) = split_acc [] cur @ split_acc [] (c # cs)"
      by (intro split_acc_append_hd) simp
    moreover have "str_split (c # cs) = str_split cs"
      using True by (simp add: str_split_def)
    ultimately show ?thesis
      using True 2(1) by (simp add: str_split_def[symmetric] str_split_dropWhile)
  next
    case False
    with 2(2) show ?thesis by auto
  qed
qed

lemma re_split_sentences_words:
  "concat (map str_split (re_split_sentences p)) = str_split p"
  by (simp add: re_split_sentences_def re_split_acc_words)

lemma strip_filter_words:
  "concat (map str_split (filter (\<lambda>s. s \<noteq> []) (map str_strip ps))) = concat (map str_split ps)"
proof (induction ps)
  case Nil
  show ?case by simp
next
  case (Cons p ps)
  have "str_strip p = [] \<Longrightarrow> str_split p = []"
    using str_split_strip[of p] by (simp add: str_split_Nil)
  with Cons show ?case by (auto simp: str_split_strip)
qed

lemma sentences_of_words: "concat (map str_split (sentences_of p)) = str_split p"
  by (simp add: sentences_of_def strip_filter_words re_split_sentences_words)

lemma take_drop_match:
  "sep \<noteq> [] \<Longrightarrow> take (length sep) (c # cs) = sep \<Longrightarrow> c # cs = sep @ drop (length sep - 1) cs"
proof -
  assume a: "sep \<noteq> []" and b: "take (length sep) (c # cs) = sep"
  from a obtain n where n: "length sep = Suc n" by (cases sep) auto
  have "c # cs = take (length sep) (c # cs) @ drop (length sep) (c # cs)" by simp
  with b n show ?thesis by simp
qed

lemma split_acc_space_block:
  "sep \<noteq> [] \<Longrightarrow> list_all isspace sep \<Longrightarrow>
     split_acc cur (sep @ rest) = (if cur = [] then [] else [cur]) @ split_acc [] rest"
proof -
  assume a: "sep \<noteq> []" and b: "list_all isspace sep"
  then have "isspace (last sep)" by (simp add: list_all_iff)
  with a have "split_acc cur (sep @ rest) = split_acc cur sep @ split_acc [] rest"
    by (rule split_acc_append_last)
  with a b show ?thesis by (simp add: split_acc_all_space)
qed

lemma split_sep_acc_words:
  "list_all isspace sep \<Longrightarrow>
     concat (map str_split (split_sep_acc sep cur s)) = str_split (cur @ s)"
proof (induction sep cur s rule: split_sep_acc.induct)
  case (1 sep cur)
  show ?case by simp
next
  case (2 sep cur c cs)
  show ?case
  proof (cases "sep \<noteq> [] \<and> take (length sep) (c # cs) = sep")
    case True
    then have eq: "c # cs = sep @ drop (length sep - 1) cs" by (intro take_drop_match) auto
    have "sep @ drop (length sep - 1) cs = [] \<or> isspace (hd (sep @ drop (length sep - 1) cs))"
      using True 2(3) by (cases sep) auto
    then have "split_acc [] (cur @ (sep @ drop (length sep - 1) cs))
        = split_acc [] cur @ split_acc [] (sep @ drop (length sep - 1) cs)"
      by (rule split_acc_append_hd)
    also have "split_acc [] (sep @ drop (length sep - 1) cs) = split_acc [] (drop (length sep - 1) cs)"
      using True 2(3) by (simp add: split_acc_space_block)
    finally have "str_split (cur @ c # cs) = str_split cur @ str_split (drop (length sep - 1) cs)"
      using eq by (simp add: str_split_def)
    moreover have "concat (map str_split (split_sep_acc sep cur (c # cs)))
        = str_split cur @ concat (map str_split (split_sep_acc sep [] (drop (length sep - 1) cs)))"
      using True by simp
    ultimately show ?thesis using 2(1)[OF True 2(3)] by simp
  next
    case False
    then have "split_sep_acc sep cur (c # cs) = split_sep_acc sep (cur @ [c]) cs" by auto
    with 2(2)[OF False 2(3)] show ?thesis by simp
  qed
qed

lemma str_replace_words:
  "old \<noteq> [] \<Longrightarrow> list_all isspace old \<Longrightarrow> new \<noteq> [] \<Longrightarrow> list_all isspace new \<Longrightarrow>
     split_acc cur (str_replace old new s) = split_acc cur s"
proof (induction old new s arbitrary: cur rule: str_replace.induct)
  case (1 old new)
  show ?case by simp
next
  case (2 old new c cs)
  show ?case
  proof (cases "take (length old) (c # cs) = old")
    case True
    with 2(3) have eq: "c # cs = old @ drop (length old - 1) cs" by (intro take_drop_match)
    have "split_acc cur (str_replace old new (c # cs))
        = split_acc cur (new @ str_replace old new (drop (length old - 1) cs))"
      using True 2(3) by simp
    also have "\<dots> = (if cur = [] then [] else [cur]) @ split_acc [] (str_replace old new (drop (length old - 1) cs))"
      using 2(5,6) by (rule split_acc_space_block)
    also have "split_acc [] (str_replace old new (drop (length old - 1) cs)) = split_acc [] (drop (length old - 1) cs)"
      using True 2 by simp
    also have "(if cur = [] then [] else [cur]) @ split_acc [] (drop (length old - 1) cs) = split_acc cur (old @ drop (length old - 1) cs)"
      using 2(3,4) by (rule split_acc_space_block[symmetric])
    finally show ?thesis using eq by simp
  next
    case False
    then have r: "str_replace old new (c # cs) = c # str_replace old new cs" by simp
    have ih: "\<And>cur. split_acc cur (str_replace old new cs) = split_acc cur cs"
      using 2(2)[OF _ 2(3,4,5,6)] False by simp
    show ?thesis unfolding r by (simp add: ih)
  qed
qed

lemma normalize_newlines_words: "str_split (normalize_newlines text) = str_split text"
  by (simp add: normalize_newlines_def str_split_def str_replace_words isspace_def)

lemma paragraphs_of_words: "concat (map str_split (paragraphs_of text)) = str_split text"
proof -
  have "list_all isspace [CHR 0x0A, CHR 0x0A]" by (simp add: isspace_def)
  then have "concat (map str_split (str_split_sep (normalize_newlines text) [CHR 0x0A, CHR 0x0A]))
      = str_split (normalize_newlines text)"
    unfolding str_split_sep_def by (simp only: split_sep_acc_words append_Nil)
  then show ?thesis
    by (simp only: paragraphs_of_def strip_filter_words normalize_newlines_words)
qed

lemma concat_map_concat: "concat (map f (concat xss)) = concat (map (\<lambda>xs. concat (map f xs)) xss)"
  by (induction xss) auto

lemma all_sentences_words:
  "concat (map str_split (concat (map sentences_of (paragraphs_of text)))) = str_split text"
proof -
  have "concat (map str_split (concat (map sentences_of ps))) = concat (map str_split ps)" for ps
    by (induction ps) (auto simp: sentences_of_words)
  then show ?thesis by (simp add: paragraphs_of_words)
qed

section \<open>The chunking loop\<close>

lemma range_from_windows:
  "0 < m \<Longrightarrow> concat (map (\<lambda>i. take m (drop i ws)) (range_from i (length ws) m)) = drop i ws"
proof (induction i "length ws" m rule: range_from.induct)
  case (1 i m)
  show ?case
  proof (cases "length ws \<le> i")
    case True
    then show ?thesis by (subst range_from.simps) simp
  next
    case False
    have "take m (drop i ws) @ drop (i + m) ws = drop i ws"
      by (metis add.commute append_take_drop_id drop_drop)
    with False 1 show ?thesis by (subst range_from.simps) simp
  qed
qed


lemma words_of_simps:
  "words_of [] = []" "words_of [x] = str_split x" "words_of (a @ b) = words_of a @ words_of b"
  by (simp_all add: words_of_def)

lemma str_split_join_words_of: "str_split (str_join '' '' xs) = words_of xs"
  by (simp add: words_of_def str_split_join)

lemma emitted_flush: "emitted (flush_current st) = emitted st"
  by (simp add: emitted_def flush_current_def words_of_simps str_split_join_words_of)

lemma current_flush: "current_sentences (flush_current st) = []"
  by (simp add: flush_current_def)

lemma emitted_append_chunks:
  "current_sentences st = [] \<Longrightarrow> emitted (st\<lparr>chunks := chunks st @ xs\<rparr>) = emitted st @ words_of xs"
  by (simp add: emitted_def words_of_simps)

lemma sub_chunks_pos:
  "0 < max_words \<Longrightarrow> sub_chunks ws max_words =
     Inr (map (\<lambda>i. str_join '' '' (take (nat max_words) (drop i ws)))
            (range_from 0 (length ws) (nat max_words)))"
  by (simp add: sub_chunks_def py_range0_def)

lemma words_of_sub_chunks:
  assumes "0 < m" and "set ws \<subseteq> set (str_split s)"
  shows "words_of (map (\<lambda>i. str_join '' '' (take m (drop i ws))) (range_from 0 (length ws) m)) = ws"
proof -
  have "str_split (str_join '' '' (take m (drop i ws))) = take m (drop i ws)" for i
  proof (rule str_split_join_words)
    show "set (take m (drop i ws)) \<subseteq> set (str_split s)"
      using assms(2) by (meson set_drop_subset set_take_subset subset_trans)
  qed
  then have "words_of (map (\<lambda>i. str_join '' '' (take m (drop i ws))) (range_from 0 (length ws) m))
      = concat (map (\<lambda>i. take m (drop i ws)) (range_from 0 (length ws) m))"
    by (simp add: words_of_def comp_def)
  also have "\<dots> = drop 0 ws" using assms(1) by (rule range_from_windows)
  finally show ?thesis by simp
qed

lemma process_sentence_empty:
  assumes "str_split s = []"
  shows "process_sentence max_words st s = Inr st"
  unfolding process_sentence_def Let_def using assms by simp

lemma process_sentence_over:
  assumes "0 < max_words" "int (length (str_split s)) > max_words"
  shows "process_sentence max_words st s =
        Inr ((flush_current st)\<lparr>chunks := chunks (flush_current st) @
           map (\<lambda>i. str_join '' '' (take (nat max_words) (drop i (str_split s))))
             (range_from 0 (length (str_split s)) (nat max_words))\<rparr>)"
proof -
  from assms have "str_split s \<noteq> []" by auto
  then show ?thesis
    unfolding process_sentence_def Let_def sub_chunks_pos[OF assms(1)] using assms(2)
    by (simp only: if_True if_False length_0_conv of_nat_eq_0_iff simp_thms sum.case)
qed

lemma process_sentence_close:
  assumes "str_split s \<noteq> []" "\<not> int (length (str_split s)) > max_words"
        "word_count st + int (length (str_split s)) > max_words \<and> current_sentences st \<noteq> []"
  shows "process_sentence max_words st s =
        Inr (st\<lparr>chunks := chunks st @ [str_join '' '' (current_sentences st)],
                current_sentences := [s], word_count := int (length (str_split s))\<rparr>)"
  unfolding process_sentence_def Let_def using assms
  by (simp only: if_True if_False length_0_conv of_nat_eq_0_iff simp_thms)

lemma process_sentence_add:
  assumes "str_split s \<noteq> []" "\<not> int (length (str_split s)) > max_words"
        "\<not> (word_count st + int (length (str_split s)) > max_words \<and> current_sentences st \<noteq> [])"
  shows "process_sentence max_words st s =
        Inr (st\<lparr>current_sentences := current_sentences st @ [s],
                word_count := word_count st + int (length (str_split s))\<rparr>)"
  unfolding process_sentence_def Let_def using assms
  by (simp only: if_True if_False length_0_conv of_nat_eq_0_iff simp_thms)

lemma process_sentence_cases:
  obtains (empty) "str_split s = []"
    | (over) "str_split s \<noteq> []" "int (length (str_split s)) > max_words"
    | (close) "str_split s \<noteq> []" "\<not> int (length (str_split s)) > max_words"
        "word_count st + int (length (str_split s)) > max_words \<and> current_sentences st \<noteq> []"
    | (add) "str_split s \<noteq> []" "\<not> int (length (str_split s)) > max_words"
        "\<not> (word_count st + int (length (str_split s)) > max_words \<and> current_sentences st \<noteq> [])"
  by blast

lemma process_sentence_covers:
  assumes "0 < max_words"
  shows "\<exists>st'. process_sentence max_words st s = Inr st' \<and> emitted st' = emitted st @ str_split s"
proof (cases rule: process_sentence_cases[where s = s and max_words = max_words and st = st])
  case empty
  then show ?thesis by (simp add: process_sentence_empty)
next
  case over
  have m: "0 < nat max_words" using assms by simp
  have w: "words_of (map (\<lambda>i. str_join '' '' (take (nat max_words) (drop i (str_split s))))
              (range_from 0 (length (str_split s)) (nat max_words))) = str_split s"
    using m by (rule words_of_sub_chunks[where s = s]) simp
  have "emitted ((flush_current st)\<lparr>chunks := chunks (flush_current st) @
         map (\<lambda>i. str_join '' '' (take (nat max_words) (drop i (str_split s))))
           (range_from 0 (length (str_split s)) (nat max_words))\<rparr>) = emitted st @ str_split s"
    by (simp only: emitted_append_chunks[OF current_flush] emitted_flush w)
  then show ?thesis by (simp only: process_sentence_over[OF assms over(2)]) blast
next
  case close
  have "emitted (st\<lparr>chunks := chunks st @ [str_join '' '' (current_sentences st)],
                current_sentences := [s], word_count := int (length (str_split s))\<rparr>)
      = emitted st @ str_split s"
    by (simp add: emitted_def words_of_simps str_split_join_words_of)
  then show ?thesis by (simp only: process_sentence_close[OF close]) blast
next
  case add
  have "emitted (st\<lparr>current_sentences := current_sentences st @ [s],
                word_count := word_count st + int (length (str_split s))\<rparr>)
      = emitted st @ str_split s"
    by (simp add: emitted_def words_of_simps)
  then show ?thesis by (simp only: process_sentence_add[OF add]) blast
qed

lemma process_sentences_covers:
  "0 < max_words \<Longrightarrow>
     \<exists>st'. process_sentences max_words st ss = Inr st' \<and> emitted st' = emitted st @ words_of ss"
proof (induction ss arbitrary: st)
  case Nil
  show ?case by (simp add: words_of_simps)
next
  case (Cons s ss)
  from process_sentence_covers[OF Cons.prems, of st s] obtain st1
    where 1: "process_sentence max_words st s = Inr st1" "emitted st1 = emitted st @ str_split s"
    by blast
  from Cons.IH[OF Cons.prems, of st1] obtain st2
    where 2: "process_sentences max_words st1 ss = Inr st2" "emitted st2 = emitted st1 @ words_of ss"
    by blast
  from 1 2 show ?case by (simp add: words_of_def)
qed

lemma process_sentences_append:
  "process_sentences max_words st (a @ b) =
     (case process_sentences max_words st a of
        Inl e \<Rightarrow> Inl e
      | Inr st' \<Rightarrow> process_sentences max_words st' b)"
  by (induction a arbitrary: st) (auto split: sum.splits)

lemma process_paragraphs_flat:
  "process_paragraphs max_words st ps =
     process_sentences max_words st (concat (map sentences_of ps))"
  by (induction ps arbitrary: st) (auto simp: process_sentences_append split: sum.splits)

lemma bounded_flush:
  "bounded max_words st \<Longrightarrow> 0 \<le> max_words \<Longrightarrow> bounded max_words (flush_current st)"
  by (simp add: bounded_def flush_current_def str_split_join_words_of words_of_simps)

lemma sub_chunk_bounded:
  assumes "0 < max_words" "set ws \<subseteq> set (str_split s)"
  shows "int (length (str_split (str_join '' '' (take (nat max_words) (drop i ws))))) \<le> max_words"
proof -
  have "set (take (nat max_words) (drop i ws)) \<subseteq> set (str_split s)"
    using assms(2) by (meson set_drop_subset set_take_subset subset_trans)
  then have "str_split (str_join '' '' (take (nat max_words) (drop i ws))) = take (nat max_words) (drop i ws)"
    by (rule str_split_join_words)
  then show ?thesis using assms(1) by simp
qed

lemma bounded_append_chunks:
  "bounded max_words st \<Longrightarrow> list_all (\<lambda>c. int (length (str_split c)) \<le> max_words) xs
     \<Longrightarrow> bounded max_words (st\<lparr>chunks := chunks st @ xs\<rparr>)"
  by (simp add: bounded_def)

lemma process_sentence_bounded:
  assumes "0 < max_words" "bounded max_words st" "process_sentence max_words st s = Inr st'"
  shows "bounded max_words st'"
proof (cases rule: process_sentence_cases[where s = s and max_words = max_words and st = st])
  case empty
  with assms show ?thesis by (simp add: process_sentence_empty)
next
  case over
  have "list_all (\<lambda>c. int (length (str_split c)) \<le> max_words)
      (map (\<lambda>i. str_join '' '' (take (nat max_words) (drop i (str_split s))))
             (range_from 0 (length (str_split s)) (nat max_words)))"
    using sub_chunk_bounded[OF assms(1), of "str_split s" s]
    by (simp add: list_all_iff)
  moreover have "bounded max_words (flush_current st)"
    using assms(1,2) by (intro bounded_flush) auto
  ultimately have "bounded max_words ((flush_current st)\<lparr>chunks := chunks (flush_current st) @
           map (\<lambda>i. str_join '' '' (take (nat max_words) (drop i (str_split s))))
             (range_from 0 (length (str_split s)) (nat max_words))\<rparr>)"
    by (intro bounded_append_chunks)
  with assms(3) show ?thesis by (simp only: process_sentence_over[OF assms(1) over(2)] sum.inject)
next
  case close
  have "bounded max_words (st\<lparr>chunks := chunks st @ [str_join '' '' (current_sentences st)],
                current_sentences := [s], word_count := int (length (str_split s))\<rparr>)"
    using assms(2) close(2)
    by (simp add: bounded_def str_split_join_words_of words_of_simps)
  with assms(3) show ?thesis by (simp only: process_sentence_close[OF close] sum.inject)
next
  case add
  have "word_count st + int (length (str_split s)) \<le> max_words"
  proof (cases "current_sentences st = []")
    case True
    with assms(2) have "word_count st = 0" by (simp add: bounded_def words_of_simps)
    with add(2) show ?thesis by simp
  next
    case False
    with add(3) show ?thesis by simp
  qed
  then have "bounded max_words (st\<lparr>current_sentences := current_sentences st @ [s],
                word_count := word_count st + int (length (str_split s))\<rparr>)"
    using assms(2) by (simp add: bounded_def words_of_simps)
  with assms(3) show ?thesis by (simp only: process_sentence_add[OF add] sum.inject)
qed

lemma process_sentences_bounded:
  "0 < max_words \<Longrightarrow> bounded max_words st \<Longrightarrow> process_sentences max_words st ss = Inr st'
     \<Longrightarrow> bounded max_words st'"
proof (induction ss arbitrary: st)
  case Nil
  then show ?case by simp
next
  case (Cons s ss)
  from process_sentence_covers[OF Cons.prems(1), of st s] obtain st1
    where 1: "process_sentence max_words st s = Inr st1" by blast
  have "bounded max_words st1" using Cons.prems(1,2) 1 by (rule process_sentence_bounded)
  moreover from 1 Cons.prems(3) have "process_sentences max_words st1 ss = Inr st'" by simp
  ultimately show ?case using Cons.IH Cons.prems(1) by blast
qed

lemma bounded_initial: "0 \<le> max_words \<Longrightarrow> bounded max_words initial_state"
  by (simp add: bounded_def initial_state_def words_of_simps)

lemma emitted_initial: "emitted initial_state = []"
  by (simp add: emitted_def initial_state_def words_of_simps)

text \<open>What \<open>_split_text\<close> returns, for a positive limit: the chunks of the final state
  with the accumulating sentences closed.\<close>

lemma split_text_final:
  assumes "0 < max_words"
  shows "\<exists>st. process_sentences max_words initial_state
              (concat (map sentences_of (paragraphs_of text))) = Inr st \<and>
           split_text text max_words = Inr (chunks (flush_current st)) \<and>
           emitted st = str_split text \<and> bounded max_words st"
proof -
  let ?ss = "concat (map sentences_of (paragraphs_of text))"
  from process_sentences_covers[OF assms, of initial_state ?ss] obtain st
    where st: "process_sentences max_words initial_state ?ss = Inr st"
      "emitted st = emitted initial_state @ words_of ?ss" by blast
  have "bounded max_words initial_state" using assms by (simp add: bounded_initial)
  with assms have "bounded max_words st" using st(1) by (rule process_sentences_bounded)
  moreover have "emitted st = str_split text"
    using st(2) by (simp add: emitted_initial words_of_def all_sentences_words)
  moreover have "split_text text max_words = Inr (chunks (flush_current st))"
    using st(1) by (simp add: split_text_def process_paragraphs_flat flush_current_def)
  ultimately show ?thesis using st(1) by blast
qed

lemma chunks_flush_words:
  "words_of (chunks (flush_current st)) = emitted st"
  by (simp add: flush_current_def emitted_def words_of_simps str_split_join_words_of)

lemma chunks_flush_bounded:
  "bounded max_words st \<Longrightarrow> 0 \<le> max_words \<Longrightarrow>
     list_all (\<lambda>c. int (length (str_split c)) \<le> max_words) (chunks (flush_current st))"
  using bounded_flush[of max_words st] by (simp add: bounded_def)

lemma process_sentences_fits:
  "0 < max_words \<Longrightarrow> chunks st = [] \<Longrightarrow> bounded max_words st \<Longrightarrow>
     word_count st + int (length (words_of ss)) \<le> max_words \<Longrightarrow>
     process_sentences max_words st ss = Inr st' \<Longrightarrow> chunks st' = []"
proof (induction ss arbitrary: st)
  case Nil
  then show ?case by simp
next
  case (Cons s ss)
  have wc: "0 \<le> word_count st" using Cons.prems(3) by (simp add: bounded_def)
  have fit: "word_count st + int (length (str_split s)) + int (length (words_of ss)) \<le> max_words"
    using Cons.prems(4) by (simp add: words_of_def)
  from process_sentence_covers[OF Cons.prems(1), of st s] obtain st1
    where 1: "process_sentence max_words st s = Inr st1" by blast
  have b1: "bounded max_words st1" using Cons.prems(1,3) 1 by (rule process_sentence_bounded)
  have rest: "process_sentences max_words st1 ss = Inr st'" using 1 Cons.prems(5) by simp
  have "chunks st1 = [] \<and> word_count st1 + int (length (words_of ss)) \<le> max_words"
  proof (cases "str_split s = []")
    case True
    with 1 have "st1 = st" by (simp add: process_sentence_empty)
    with fit True Cons.prems(2) show ?thesis by simp
  next
    case False
    have a: "\<not> int (length (str_split s)) > max_words" using fit wc by simp
    have b: "\<not> (word_count st + int (length (str_split s)) > max_words \<and> current_sentences st \<noteq> [])"
      using fit by simp
    from 1 have "st1 = st\<lparr>current_sentences := current_sentences st @ [s],
                word_count := word_count st + int (length (str_split s))\<rparr>"
      by (simp only: process_sentence_add[OF False a b] sum.inject)
    with fit Cons.prems(2) show ?thesis by simp
  qed
  then show ?case using Cons.IH[OF Cons.prems(1) _ b1 _ rest] by blast
qed

lemma length_words_of_bounded:
  "list_all (\<lambda>c. int (length (str_split c)) \<le> m) cs \<Longrightarrow>
     int (length (words_of cs)) \<le> int (length cs) * m"
proof (induction cs)
  case Nil
  show ?case by (simp add: words_of_def)
next
  case (Cons c cs)
  then have "int (length (str_split c)) \<le> m" "int (length (words_of cs)) \<le> int (length cs) * m"
    by simp_all
  then show ?case by (simp add: words_of_def algebra_simps)
qed

lemma ceil_div_le:
  fixes w k m :: int
  assumes "0 < m" "w \<le> k * m"
  shows "(w + m - 1) div m \<le> k"
proof -
  have "(w + m - 1) div m \<le> (k * m + (m - 1)) div m"
    using assms by (intro zdiv_mono1) auto
  also have "\<dots> = k + (m - 1) div m" using assms(1) by simp
  also have "(m - 1) div m = 0" using assms(1) by simp
  finally show ?thesis by simp
qed

section \<open>Properties of \<open>_split_text\<close>\<close>

text \<open>
  Claim C1 (chunk coverage), as amended. For every input text and every limit
  \<open>max_words \<ge> 1\<close>, \<open>_split_text\<close> returns, and the words of the returned chunks,
  concatenated in order, are the words of the trimmed input: none dropped, duplicated or
  reordered.
\<close>

theorem split_text_covers_words:
  assumes "1 \<le> max_words"
  shows "\<exists>chunks. split_text text max_words = Inr chunks \<and>
           words_of chunks = str_split (str_strip text)"
proof -
  from assms have "0 < max_words" by simp
  from split_text_final[OF this, of "text"] obtain st
    where "split_text text max_words = Inr (chunks (flush_current st))"
      "emitted st = str_split text" by blast
  then show ?thesis by (simp add: chunks_flush_words str_split_strip)
qed

text \<open>
  Claim C1, witness: the theorem at limit 3 on a text with an oversized sentence.
\<close>

theorem split_text_covers_words_witness:
  "(1::int) \<le> 3 \<and>
   (\<exists>chunks. split_text ''Hello world. This is  a test! Yes?'' 3 = Inr chunks \<and>
      words_of chunks = str_split (str_strip ''Hello world. This is  a test! Yes?''))"
  using split_text_covers_words[of 3 "''Hello world. This is  a test! Yes?''"] by simp

text \<open>
  Claim C1, counterexample to the claim as stated for every \<open>max_words\<close>: with the limit
  \<open>-1\<close> every sentence is oversized and \<open>range(0, n, -1)\<close> is empty, so both words of the
  input are dropped; with the limit \<open>0\<close> the \<open>range\<close> call raises \<open>ValueError\<close>.
\<close>

theorem split_text_nonpositive_limit:
  "split_text ''hello world'' (- 1) = Inr [] \<and>
   str_split (str_strip ''hello world'') = [''hello'', ''world''] \<and>
   split_text ''hello world'' 0 = Inl ValueError"
  by code_simp



text \<open>
  Claim C8 (chunk count), as amended. For every input text that has at least one word and
  every \<open>max_words \<ge> 1\<close>, \<open>_split_text\<close> returns at least one chunk; exactly one chunk
  when the word count \<open>W\<close> is at most \<open>max_words\<close> (paragraph breaks or not); and at least
  \<open>ceil(W / max_words)\<close> chunks, in particular for one unbroken sentence of \<open>W\<close> words.
\<close>

theorem chunk_count:
  assumes "1 \<le> max_words" "str_split text \<noteq> []"
  shows "\<exists>chunks. split_text text max_words = Inr chunks \<and> 1 \<le> length chunks \<and>
     (int (length (str_split text)) \<le> max_words \<longrightarrow> length chunks = 1) \<and>
     (int (length (str_split text)) + max_words - 1) div max_words \<le> int (length chunks)"
proof -
  from assms have pos: "0 < max_words" by simp
  let ?ss = "concat (map sentences_of (paragraphs_of text))"
  from split_text_final[OF pos, of "text"] obtain st
    where st: "process_sentences max_words initial_state ?ss = Inr st"
      "split_text text max_words = Inr (chunks (flush_current st))"
      "emitted st = str_split text" "bounded max_words st" by blast
  let ?cs = "chunks (flush_current st)"
  have words: "words_of ?cs = str_split text" using st(3) by (simp add: chunks_flush_words)
  have bnd: "list_all (\<lambda>c. int (length (str_split c)) \<le> max_words) ?cs"
    using st(4) pos by (simp add: chunks_flush_bounded)
  have ne: "?cs \<noteq> []" using words assms(2) by (auto simp: words_of_def)
  then have one: "1 \<le> length ?cs" by (cases ?cs) simp_all
  have "int (length (words_of ?cs)) \<le> int (length ?cs) * max_words"
    using bnd by (rule length_words_of_bounded)
  then have ceil: "(int (length (str_split text)) + max_words - 1) div max_words \<le> int (length ?cs)"
    unfolding words using pos by (intro ceil_div_le)
  have single: "length ?cs = 1" if fits: "int (length (str_split text)) \<le> max_words"
  proof -
    have "word_count initial_state + int (length (words_of ?ss)) \<le> max_words"
      using fits by (simp add: initial_state_def words_of_def all_sentences_words)
    moreover have "chunks initial_state = []" by (simp add: initial_state_def)
    moreover have "bounded max_words initial_state" using pos by (simp add: bounded_initial)
    ultimately have "chunks st = []"
      using pos st(1) process_sentences_fits[of max_words initial_state ?ss st] by blast
    then have "length ?cs \<le> 1" by (simp add: flush_current_def)
    with one show ?thesis by simp
  qed
  from st(2) one single ceil show ?thesis by blast
qed

text \<open>
  Claim C8, witness: three words in two sentences under limit 3 give one chunk.
\<close>

theorem chunk_count_witness:
  "(1::int) \<le> 3 \<and> str_split ''One. Two three.'' \<noteq> [] \<and>
   (\<exists>chunks. split_text ''One. Two three.'' 3 = Inr chunks \<and> length chunks = 1)"
proof -
  have w: "str_split ''One. Two three.'' = [''One.'', ''Two'', ''three.'']" by code_simp
  show ?thesis using chunk_count[of 3 "''One. Two three.''"] unfolding w by auto
qed

text \<open>
  Claim C8, counterexample to the claim as stated for every non-empty input: a text that
  is one space is not empty, and \<open>_split_text\<close> returns no chunk for it.
\<close>

theorem split_text_blank_input:
  "split_text '' '' 100 = Inr [] \<and> '' '' \<noteq> ''''"
  by code_simp

section \<open>The synthesis driver\<close>





declare str_nat.simps [simp del]
















section \<open>Properties of \<open>synthesize_directory\<close>\<close>






section \<open>Pairing and assembling\<close>

lemma clip_handles_append:
  "clip_handles k (n + m) = clip_handles k n @ clip_handles (k + n) m"
  by (induction n arbitrary: k) simp_all

lemma clip_handles_mem:
  "ClipHandle j \<in> set (clip_handles k n) \<longleftrightarrow> k \<le> j \<and> j < k + n"
  by (induction n arbitrary: k) auto

lemma final_not_clip_handle: "FinalHandle \<notin> set (clip_handles k n)"
  by (induction n arbitrary: k) auto

lemma open_after_opened:
  "open_after hs (map Opened xs @ ops) = open_after (hs @ xs) ops"
  by (induction xs arbitrary: hs) simp_all

lemma chunk_clips_closed:
  "chunk_clips duration img entries (clips, ops) =
     (clips @ map (\<lambda>(idx, wav). \<lparr>clip_image = img, clip_audio = wav,
                    total_duration = duration wav + lead_in, audio_start = lead_in\<rparr>) entries,
      ops @ map Opened (clip_handles (length clips) (length entries)))"
  by (induction entries arbitrary: clips ops) auto

lemma stem_clips_closed:
  "list_all (\<lambda>s. image_map s \<noteq> None \<and> audio_groups s \<noteq> None) stems \<Longrightarrow>
   \<exists>ops'. stem_clips duration image_map audio_groups stems (clips, ops) =
     Inr (clips @ concat (map (\<lambda>s. map (\<lambda>(idx, wav).
              \<lparr>clip_image = the (image_map s), clip_audio = wav,
                total_duration = duration wav + lead_in, audio_start = lead_in\<rparr>)
            (sort_key fst (the (audio_groups s)))) stems), ops')"
proof (induction stems arbitrary: clips ops)
  case Nil
  show ?case by simp
next
  case (Cons s stems)
  from Cons.prems obtain img entries where s: "image_map s = Some img" "audio_groups s = Some entries"
    by auto
  from Cons.prems have rest: "list_all (\<lambda>s. image_map s \<noteq> None \<and> audio_groups s \<noteq> None) stems"
    by simp
  let ?mid = "clips @ map (\<lambda>(idx, wav). \<lparr>clip_image = img, clip_audio = wav,
                    total_duration = duration wav + lead_in, audio_start = lead_in\<rparr>)
                 (sort_key fst entries)"
  have "\<exists>ops'. stem_clips duration image_map audio_groups stems
      (?mid, ops @ map Opened (clip_handles (length clips) (length (sort_key fst entries)))) =
     Inr (?mid @ concat (map (\<lambda>s. map (\<lambda>(idx, wav).
              \<lparr>clip_image = the (image_map s), clip_audio = wav,
                total_duration = duration wav + lead_in, audio_start = lead_in\<rparr>)
            (sort_key fst (the (audio_groups s)))) stems), ops')"
    by (rule Cons.IH[OF rest])
  then show ?case
    by (simp only: stem_clips.simps s option.case option.sel chunk_clips_closed
        list.map concat.simps append_assoc)
qed

lemma stem_clips_ops:
  "stem_clips duration image_map audio_groups stems (clips, ops) = Inr (clips', ops') \<Longrightarrow>
   length clips \<le> length clips' \<and>
   ops' = ops @ map Opened (clip_handles (length clips) (length clips' - length clips))"
proof (induction stems arbitrary: clips ops)
  case Nil
  then show ?case by simp
next
  case (Cons s stems)
  from Cons.prems obtain img entries where s: "image_map s = Some img" "audio_groups s = Some entries"
    by (auto split: option.splits)
  let ?n = "length (sort_key fst entries)"
  let ?mid = "clips @ map (\<lambda>(idx, wav). \<lparr>clip_image = img, clip_audio = wav,
                    total_duration = duration wav + lead_in, audio_start = lead_in\<rparr>)
                 (sort_key fst entries)"
  from Cons.prems have "stem_clips duration image_map audio_groups stems
      (?mid, ops @ map Opened (clip_handles (length clips) ?n)) = Inr (clips', ops')"
    by (simp only: stem_clips.simps s option.case chunk_clips_closed)
  from Cons.IH[OF this]
  have le: "length ?mid \<le> length clips'"
    and o: "ops' = (ops @ map Opened (clip_handles (length clips) ?n))
              @ map Opened (clip_handles (length ?mid) (length clips' - length ?mid))"
    by simp_all
  have len: "length ?mid = length clips + ?n" by simp
  from le len have split: "length clips' - length clips = ?n + (length clips' - length ?mid)"
    by simp
  show ?case unfolding split clip_handles_append using le o len by simp
qed

lemma dom_build_image_map:
  "dom (build_image_map ps m) = dom m \<union> path_stem ` set ps"
  by (induction ps arbitrary: m) auto

lemma build_image_map_value:
  "build_image_map ps m s = Some p \<Longrightarrow> (p \<in> set ps \<and> path_stem p = s) \<or> m s = Some p"
proof (induction ps arbitrary: m)
  case Nil
  then show ?case by simp
next
  case (Cons a ps)
  from Cons.prems have "build_image_map ps (m(path_stem a \<mapsto> a)) s = Some p" by simp
  from Cons.IH[OF this] show ?case by (auto split: if_splits)
qed

lemma common_stems_set:
  assumes "\<forall>xs. mset (set_order xs) = mset xs"
  shows "set (common_stems set_order image_files audio_groups)
           = path_stem ` set image_files \<inter> dom audio_groups"
proof -
  have "set (set_order xs) = set xs" for xs using assms by (metis mset_eq_setD)
  then show ?thesis by (auto simp: common_stems_def)
qed

lemma common_stems_distinct:
  assumes "\<forall>xs. mset (set_order xs) = mset xs"
  shows "distinct (common_stems set_order image_files audio_groups)"
proof -
  have "distinct (set_order xs) = distinct xs" for xs
    using assms by (metis mset_eq_imp_distinct_iff)
  then show ?thesis by (simp add: common_stems_def)
qed

lemma common_stems_sorted:
  "sorted (map str_lower (common_stems set_order image_files audio_groups))"
  by (simp add: common_stems_def)

section \<open>Properties of \<open>create_video_from_directory\<close>\<close>

text \<open>
  Claim C9 (resource release on failure) does not hold of the code. Whenever
  \<open>write_videofile\<close> raises after a non-empty timeline has been assembled, the function
  is left with that exception, no \<open>close\<close> call has been made, and every per-chunk clip
  and the concatenated final clip are still open: the clean-up of lines 175-177 is only
  reached when the write returns.
\<close>

theorem write_failure_leaves_clips_open:
  assumes "timeline (create_video_from_directory set_order duration (Some e)
             image_files audio_files output_path) \<noteq> []"
  shows "outcome (create_video_from_directory set_order duration (Some e)
             image_files audio_files output_path) = Inl e \<and>
         (\<forall>k < length (timeline (create_video_from_directory set_order duration (Some e)
             image_files audio_files output_path)).
            ClipHandle k \<in> set (open_handles (create_video_from_directory set_order duration
              (Some e) image_files audio_files output_path))) \<and>
         FinalHandle \<in> set (open_handles (create_video_from_directory set_order duration
              (Some e) image_files audio_files output_path)) \<and>
         (\<forall>h. Closed h \<notin> set (resource_ops (create_video_from_directory set_order duration
              (Some e) image_files audio_files output_path)))"
proof -
  let ?run = "create_video_from_directory set_order duration (Some e)
             image_files audio_files output_path"
  from assms obtain audio_groups clips ops where
    built: "stem_clips duration (build_image_map (sort_key str_lower image_files) Map.empty)
        audio_groups (common_stems set_order (sort_key str_lower image_files) audio_groups)
        ([], []) = Inr (clips, ops)"
    and run: "?run = \<lparr>outcome = Inl e, timeline = clips,
                      resource_ops = ops @ [Opened FinalHandle]\<rparr>"
    by (auto simp: create_video_from_directory_def Let_def
        split: sum.splits if_splits prod.splits)
  from stem_clips_ops[OF built]
  have ops: "ops = map Opened (clip_handles 0 (length clips))" by simp
  have opened: "open_handles ?run = clip_handles 0 (length clips) @ [FinalHandle]"
    unfolding run open_handles_def ops
    by (simp add: open_after_opened)
  have trace: "resource_ops ?run = map Opened (clip_handles 0 (length clips) @ [FinalHandle])"
    unfolding run ops by simp
  have "Closed h \<notin> set (resource_ops ?run)" for h unfolding trace by auto
  moreover have "ClipHandle k \<in> set (open_handles ?run)" if "k < length (timeline ?run)" for k
    using that unfolding opened by (simp add: run clip_handles_mem)
  moreover have "FinalHandle \<in> set (open_handles ?run)" unfolding opened by simp
  moreover have "outcome ?run = Inl e" by (simp add: run)
  ultimately show ?thesis by blast
qed

text \<open>
  Claim C9, the failing run: one image with two audio chunks and \<open>write_videofile\<close>
  raising. The function is left with the exception; the two chunk clips, the objects they
  were built from and the final clip are open, and nothing has been closed.
\<close>

theorem write_failure_leaves_clips_open_witness:
  "timeline (create_video_from_directory id (\<lambda>p. 4) (Some WriteError)
      [''intro.png''] [''intro-02.wav'', ''intro-01.wav''] ''out.mp4'') \<noteq> [] \<and>
   outcome (create_video_from_directory id (\<lambda>p. 4) (Some WriteError)
      [''intro.png''] [''intro-02.wav'', ''intro-01.wav''] ''out.mp4'') = Inl WriteError \<and>
   open_handles (create_video_from_directory id (\<lambda>p. 4) (Some WriteError)
      [''intro.png''] [''intro-02.wav'', ''intro-01.wav''] ''out.mp4'')
     = [AudioHandle 0, ImageHandle 0, ClipHandle 0,
        AudioHandle 1, ImageHandle 1, ClipHandle 1, FinalHandle] \<and>
   ClipHandle 1 \<in> set (open_handles (create_video_from_directory id (\<lambda>p. 4) (Some WriteError)
      [''intro.png''] [''intro-02.wav'', ''intro-01.wav''] ''out.mp4''))"
proof -
  let ?run = "create_video_from_directory id (\<lambda>p. 4) (Some WriteError)
      [''intro.png''] [''intro-02.wav'', ''intro-01.wav''] ''out.mp4''"
  have n: "length (timeline ?run) = 2" by code_simp
  then have t: "timeline ?run \<noteq> []" by auto
  have o: "open_handles ?run = [AudioHandle 0, ImageHandle 0, ClipHandle 0,
        AudioHandle 1, ImageHandle 1, ClipHandle 1, FinalHandle]" by code_simp
  from write_failure_leaves_clips_open[OF t] have "outcome ?run = Inl WriteError"
    and "\<forall>k < length (timeline ?run). ClipHandle k \<in> set (open_handles ?run)" by blast+
  with n t o show ?thesis by simp
qed

end
